theory Spec2Isabelle
  imports Complex_Main "HOL-Library.Multiset"
begin

section \<open>Data model\<close>

text \<open>
  The Python exceptions the modelled code can raise. Each raise of the source is a branch
  of the model that returns \<open>Inl\<close> of one of them.
\<close>

datatype py_error = IndexError | KeyError | ValueError | AssertionError

text \<open>
  A pipeline stage (\<open>JaxPipelineStage\<close>) as far as the donation analysis reads it: the
  ordered list of its input variables and the list of its output variables. Variables are
  compared by identity; the type \<open>'v\<close> stands for them.
\<close>

record 'v stage =
  invars :: "'v list"
  outvars :: "'v list"

section \<open>The donation analysis: \<open>split_donate_invars\<close>\<close>

text \<open>
  Lines 64 to 69. The comprehension reads \<open>global_invars[i]\<close> only for the positions
  \<open>i\<close> of \<open>donated_invars\<close> whose flag is false, so it raises \<open>IndexError\<close>
  exactly when such a position lies beyond the end of \<open>global_invars\<close>.
\<close>

fun not_donated_list :: "bool list \<Rightarrow> 'v list \<Rightarrow> nat list \<Rightarrow> py_error + 'v list" where
  "not_donated_list donated_invars global_invars [] = Inr []"
| "not_donated_list donated_invars global_invars (i # is) =
     (if \<not> donated_invars ! i then
        (if i < length global_invars then
           (case not_donated_list donated_invars global_invars is of
              Inl e \<Rightarrow> Inl e
            | Inr vs \<Rightarrow> Inr (global_invars ! i # vs))
         else Inl IndexError)
      else not_donated_list donated_invars global_invars is)"

definition not_donated_of :: "bool list \<Rightarrow> 'v list \<Rightarrow> py_error + 'v set" where
  "not_donated_of donated_invars global_invars =
     (case not_donated_list donated_invars global_invars [0..<length donated_invars] of
        Inl e \<Rightarrow> Inl e
      | Inr vs \<Rightarrow> Inr (set vs))"

text \<open>
  Lines 71 to 74. The dictionary \<open>global_last_use\<close> is a map; a later stage overwrites
  the entry an earlier stage wrote.
\<close>

definition global_last_use_of :: "'v stage list \<Rightarrow> ('v \<rightharpoonup> nat)" where
  "global_last_use_of stages =
     fold (\<lambda>(stage_idx, stage) m. fold (\<lambda>invar m'. m'(invar \<mapsto> stage_idx)) (invars stage) m)
       (enumerate 0 stages) Map.empty"

text \<open>
  Lines 90 to 97: the decision for one input variable. The \<open>and\<close> of line 94 reads
  \<open>global_last_use[var]\<close> only when \<open>var\<close> is a main copy; a missing key raises
  \<open>KeyError\<close>.
\<close>

definition donate_flag ::
  "'v set \<Rightarrow> 'v set \<Rightarrow> 'v set \<Rightarrow> ('v \<rightharpoonup> nat) \<Rightarrow> nat \<Rightarrow> 'v \<Rightarrow> py_error + bool" where
  "donate_flag not_donated use_later main_copy_vars global_last_use stage_idx var =
     (if var \<in> not_donated \<or> var \<in> use_later then Inr False
      else if var \<in> main_copy_vars then
        (case global_last_use var of
           None \<Rightarrow> Inl KeyError
         | Some last_use \<Rightarrow> if last_use > stage_idx then Inr False else Inr True)
      else Inr True)"

text \<open>Lines 87 to 97: the loop over the input variables of one stage.\<close>

fun donate_status_of ::
  "'v set \<Rightarrow> 'v set \<Rightarrow> 'v set \<Rightarrow> ('v \<rightharpoonup> nat) \<Rightarrow> nat \<Rightarrow> 'v list \<Rightarrow> py_error + bool list" where
  "donate_status_of not_donated use_later main_copy_vars global_last_use stage_idx [] = Inr []"
| "donate_status_of not_donated use_later main_copy_vars global_last_use stage_idx (var # vars) =
     (case donate_flag not_donated use_later main_copy_vars global_last_use stage_idx var of
        Inl e \<Rightarrow> Inl e
      | Inr b \<Rightarrow>
          (case donate_status_of not_donated use_later main_copy_vars global_last_use
                  stage_idx vars of
             Inl e \<Rightarrow> Inl e
           | Inr bs \<Rightarrow> Inr (b # bs)))"

text \<open>
  Lines 80 to 82: the outputs of every stage of the group. \<open>stages[stage_idx]\<close> raises
  \<open>IndexError\<close> for an index beyond the list. Stage indices are positions, modelled as
  natural numbers.
\<close>

fun main_copy_vars_of :: "'v stage list \<Rightarrow> nat list \<Rightarrow> 'v set \<Rightarrow> py_error + 'v set" where
  "main_copy_vars_of stages [] main_copy_vars = Inr main_copy_vars"
| "main_copy_vars_of stages (stage_idx # serial_group) main_copy_vars =
     (if stage_idx < length stages then
        main_copy_vars_of stages serial_group
          (main_copy_vars \<union> set (outvars (stages ! stage_idx)))
      else Inl IndexError)"

text \<open>
  Lines 84 to 99: the walk over the reversed group, with the state it threads: the set
  \<open>use_later\<close> and the answer list \<open>ans\<close>, whose entries start as \<open>None\<close>.
\<close>

fun walk_group ::
  "'v set \<Rightarrow> 'v set \<Rightarrow> ('v \<rightharpoonup> nat) \<Rightarrow> 'v stage list \<Rightarrow> nat list \<Rightarrow> 'v set \<Rightarrow>
   bool list option list \<Rightarrow> py_error + bool list option list" where
  "walk_group not_donated main_copy_vars global_last_use stages [] use_later ans = Inr ans"
| "walk_group not_donated main_copy_vars global_last_use stages (stage_idx # serial_group)
     use_later ans =
     (if stage_idx < length stages then
        (let invars = invars (stages ! stage_idx) in
         case donate_status_of not_donated use_later main_copy_vars global_last_use
                stage_idx invars of
           Inl e \<Rightarrow> Inl e
         | Inr donate_status \<Rightarrow>
             (if stage_idx < length ans then
                walk_group not_donated main_copy_vars global_last_use stages serial_group
                  (use_later \<union> set invars) (ans[stage_idx := Some donate_status])
              else Inl IndexError))
      else Inl IndexError)"

text \<open>Lines 79 to 99: one iteration of the loop over the pattern.\<close>

definition process_group ::
  "'v set \<Rightarrow> ('v \<rightharpoonup> nat) \<Rightarrow> 'v stage list \<Rightarrow> nat list \<Rightarrow>
   bool list option list \<Rightarrow> py_error + bool list option list" where
  "process_group not_donated global_last_use stages serial_group ans =
     (let serial_group = sort serial_group in
      case main_copy_vars_of stages serial_group {} of
        Inl e \<Rightarrow> Inl e
      | Inr main_copy_vars \<Rightarrow>
          walk_group not_donated main_copy_vars global_last_use stages (rev serial_group) {} ans)"

fun process_pattern ::
  "'v set \<Rightarrow> ('v \<rightharpoonup> nat) \<Rightarrow> 'v stage list \<Rightarrow> nat list list \<Rightarrow>
   bool list option list \<Rightarrow> py_error + bool list option list" where
  "process_pattern not_donated global_last_use stages [] ans = Inr ans"
| "process_pattern not_donated global_last_use stages (serial_group # pattern) ans =
     (case process_group not_donated global_last_use stages serial_group ans of
        Inl e \<Rightarrow> Inl e
      | Inr ans' \<Rightarrow> process_pattern not_donated global_last_use stages pattern ans')"

text \<open>
  Lines 47 to 100. The result is the list \<open>ans\<close>: one entry per stage, \<open>None\<close> for a
  stage that no group of the pattern names.
\<close>

definition split_donate_invars ::
  "bool list \<Rightarrow> 'v list \<Rightarrow> 'v stage list \<Rightarrow> nat list list \<Rightarrow> py_error + bool list option list" where
  "split_donate_invars donated_invars global_invars stages pattern =
     (case not_donated_of donated_invars global_invars of
        Inl e \<Rightarrow> Inl e
      | Inr not_donated \<Rightarrow>
          process_pattern not_donated (global_last_use_of stages) stages pattern
            (replicate (length stages) None))"

section \<open>The donation table in the words of the specification\<close>

text \<open>
  The specification describes the table declaratively. The following definitions follow its
  words; the theorems below compare them with \<open>split_donate_invars\<close>.
\<close>

text \<open>The non-donated global inputs: the global inputs whose donation flag is false.\<close>

definition not_donated_spec :: "bool list \<Rightarrow> 'v list \<Rightarrow> 'v set" where
  "not_donated_spec donated_invars global_invars =
     set (map ((!) global_invars)
            (filter (\<lambda>i. \<not> donated_invars ! i) [0..<length donated_invars]))"

text \<open>
  The variables read again by a stage of the same serial group that executes after
  \<open>stage_idx\<close> in forward order.
\<close>

definition use_later_spec :: "'v stage list \<Rightarrow> nat list \<Rightarrow> nat \<Rightarrow> 'v set" where
  "use_later_spec stages serial_group stage_idx =
     (\<Union>t \<in> set (filter (\<lambda>t. stage_idx < t) serial_group). set (invars (stages ! t)))"

text \<open>The main copies of a group: every output produced anywhere in the group.\<close>

definition main_copy_vars_spec :: "'v stage list \<Rightarrow> nat list \<Rightarrow> 'v set" where
  "main_copy_vars_spec stages serial_group =
     (\<Union>t \<in> set serial_group. set (outvars (stages ! t)))"

text \<open>The last use of a variable by global stage position, across all groups.\<close>

definition last_use_spec :: "'v stage list \<Rightarrow> 'v \<Rightarrow> nat" where
  "last_use_spec stages var =
     Max (set (filter (\<lambda>t. var \<in> set (invars (stages ! t))) [0..<length stages]))"

text \<open>The three reasons (a), (b) and (c) for which an input is not donatable.\<close>

definition not_donatable_spec ::
  "'v set \<Rightarrow> 'v stage list \<Rightarrow> nat list \<Rightarrow> nat \<Rightarrow> 'v \<Rightarrow> bool" where
  "not_donatable_spec not_donated stages serial_group stage_idx var \<longleftrightarrow>
     var \<in> not_donated \<or>
     var \<in> use_later_spec stages serial_group stage_idx \<or>
     (var \<in> main_copy_vars_spec stages serial_group \<and> last_use_spec stages var > stage_idx)"

text \<open>The serial group of the pattern that names a stage.\<close>

definition group_of :: "nat list list \<Rightarrow> nat \<Rightarrow> nat list" where
  "group_of pattern stage_idx =
     (case find (\<lambda>serial_group. stage_idx \<in> set serial_group) pattern of
        Some serial_group \<Rightarrow> serial_group
      | None \<Rightarrow> [])"

definition donation_table_spec ::
  "bool list \<Rightarrow> 'v list \<Rightarrow> 'v stage list \<Rightarrow> nat list list \<Rightarrow> bool list option list" where
  "donation_table_spec donated_invars global_invars stages pattern =
     map (\<lambda>stage_idx.
            Some (map (\<lambda>var. \<not> not_donatable_spec (not_donated_spec donated_invars global_invars)
                             stages (group_of pattern stage_idx) stage_idx var)
                   (invars (stages ! stage_idx))))
       [0..<length stages]"

text \<open>
  A valid input: one donation flag per global input, and a pattern that is a partition of
  the stage indices into serial groups.
\<close>

definition valid_input :: "bool list \<Rightarrow> 'v list \<Rightarrow> 'v stage list \<Rightarrow> nat list list \<Rightarrow> bool" where
  "valid_input donated_invars global_invars stages pattern \<longleftrightarrow>
     length donated_invars = length global_invars \<and>
     distinct (concat pattern) \<and>
     set (concat pattern) = {0..<length stages}"

text \<open>
  The answer marks \<open>var\<close> donatable in stage \<open>stage_idx\<close>: some position of the stage's
  input list holds \<open>var\<close> and the flag returned for that position is true.
\<close>

definition marked_donatable ::
  "bool list option list \<Rightarrow> 'v stage list \<Rightarrow> nat \<Rightarrow> 'v \<Rightarrow> bool" where
  "marked_donatable ans stages stage_idx var \<longleftrightarrow>
     stage_idx < length stages \<and> stage_idx < length ans \<and>
     (case ans ! stage_idx of
        None \<Rightarrow> False
      | Some donate_status \<Rightarrow> (var, True) \<in> set (zip (invars (stages ! stage_idx)) donate_status))"

text \<open>
  A four-stage pipeline on two meshes, stages 0 and 3 on the first mesh and stages 1 and 2
  on the second. Variable 0 is the global input; stage \<open>i\<close> produces variable \<open>i + 1\<close>.
\<close>

definition ex_stages :: "nat stage list" where
  "ex_stages =
     [\<lparr>invars = [0], outvars = [1]\<rparr>,
      \<lparr>invars = [0, 1], outvars = [2]\<rparr>,
      \<lparr>invars = [1, 2], outvars = [3]\<rparr>,
      \<lparr>invars = [3, 1], outvars = [4]\<rparr>]"

definition ex_pattern :: "nat list list" where
  "ex_pattern = [[0, 3], [1, 2]]"

section \<open>Splitting at the gradient barrier: \<open>split_compute_and_apply\<close>\<close>

text \<open>
  An equation of the traced graph as far as the split reads it: its primitive, compared by
  identity with the pipeline marker \<open>pipeline_p\<close>, its parameter dictionary, and its
  variables.
\<close>

datatype jax_primitive = pipeline_p | other_primitive string

record 'v eqn =
  primitive :: jax_primitive
  params :: "string \<rightharpoonup> string"
  eqn_invars :: "'v list"
  eqn_outvars :: "'v list"

text \<open>
  A \<open>ClosedJaxpr\<close>: the \<open>Jaxpr\<close> (constant variables, inputs, outputs, equations)
  and the constants (the field \<open>consts\<close>, here \<open>jaxpr_consts\<close>); \<open>closed_jaxpr.eqns\<close> is the
  equation list of the inner graph.
\<close>

record ('v, 'c) closed_jaxpr =
  constvars :: "'v list"
  jaxpr_invars :: "'v list"
  jaxpr_outvars :: "'v list"
  eqns :: "'v eqn list"
  jaxpr_consts :: "'c list"

text \<open>Line 38: \<open>ClosedJaxpr(Jaxpr([], [], [], []), [])\<close>.\<close>

definition empty_closed_jaxpr :: "('v, 'c) closed_jaxpr" where
  "empty_closed_jaxpr =
     \<lparr>constvars = [], jaxpr_invars = [], jaxpr_outvars = [], eqns = [], jaxpr_consts = []\<rparr>"

text \<open>
  Line 31, as a predicate: the equation is a pipeline marker tagged as the gradient
  barrier.
\<close>

definition is_grad_marker :: "'v eqn \<Rightarrow> bool" where
  "is_grad_marker e \<longleftrightarrow> primitive e = pipeline_p \<and> params e ''mark_type'' = Some ''grad''"

text \<open>
  A pipeline marker carries its mark type: \<open>eqn.params['mark_type']\<close> raises
  \<open>KeyError\<close> on a marker that has none.
\<close>

definition marker_has_type :: "'v eqn \<Rightarrow> bool" where
  "marker_has_type e \<longleftrightarrow> primitive e \<noteq> pipeline_p \<or> params e ''mark_type'' \<noteq> None"

text \<open>
  Lines 29 to 33: the scan over the enumerated equations. The state is the pair
  \<open>(split_eqn, split_idx)\<close>, \<open>None\<close> while no marker has been seen; every later
  marker overwrites it.
\<close>

fun find_split_eqn ::
  "(nat \<times> 'v eqn) list \<Rightarrow> ('v eqn \<times> nat) option \<Rightarrow> py_error + ('v eqn \<times> nat) option" where
  "find_split_eqn [] split = Inr split"
| "find_split_eqn ((idx, eqn) # rest) split =
     (if primitive eqn = pipeline_p then
        (case params eqn ''mark_type'' of
           None \<Rightarrow> Inl KeyError
         | Some mark_type \<Rightarrow>
             if mark_type = ''grad'' then find_split_eqn rest (Some (eqn, idx))
             else find_split_eqn rest split)
      else find_split_eqn rest split)"

definition missing_barrier_warning :: string where
  "missing_barrier_warning =
     ''missing barrier between compute and apply, hint: replace jax.grad by parax.grad''"

text \<open>
  Lines 27 to 44. The helper \<open>slices_to_jaxpr\<close> of \<open>parax.util\<close> is a parameter: it
  receives the graph and the list of equation slices and returns a list of graphs, which
  line 43 unpacks into three (\<open>ValueError\<close> otherwise). The second component of the
  result is the list of warnings the call logged.
\<close>

definition split_compute_and_apply ::
  "(('v, 'c) closed_jaxpr \<Rightarrow> 'v eqn list list \<Rightarrow> ('v, 'c) closed_jaxpr list) \<Rightarrow>
   ('v, 'c) closed_jaxpr \<Rightarrow>
   (py_error + (('v, 'c) closed_jaxpr \<times> ('v, 'c) closed_jaxpr \<times> 'v eqn option)) \<times> string list" where
  "split_compute_and_apply slices_to_jaxpr closed_jaxpr =
     (case find_split_eqn (enumerate 0 (eqns closed_jaxpr)) None of
        Inl e \<Rightarrow> (Inl e, [])
      | Inr None \<Rightarrow>
          (Inr (closed_jaxpr, empty_closed_jaxpr, None), [missing_barrier_warning])
      | Inr (Some (split_eqn, split_idx)) \<Rightarrow>
          (let sliced_eqns =
                 [take split_idx (eqns closed_jaxpr), [split_eqn],
                  drop (split_idx + 1) (eqns closed_jaxpr)]
           in case slices_to_jaxpr closed_jaxpr sliced_eqns of
                [compute, _, apply] \<Rightarrow> (Inr (compute, apply, Some split_eqn), [])
              | _ \<Rightarrow> (Inl ValueError, [])))"

text \<open>
  A stand-in for \<open>slices_to_jaxpr\<close> used on concrete inputs: one graph per slice, holding
  the equations of the slice.
\<close>

definition ex_slices_to_jaxpr ::
  "(nat, nat) closed_jaxpr \<Rightarrow> nat eqn list list \<Rightarrow> (nat, nat) closed_jaxpr list" where
  "ex_slices_to_jaxpr closed_jaxpr sliced_eqns = map (\<lambda>es. closed_jaxpr\<lparr>eqns := es\<rparr>) sliced_eqns"

definition ex_marker :: "string \<Rightarrow> nat \<Rightarrow> nat eqn" where
  "ex_marker mark_type v =
     \<lparr>primitive = pipeline_p, params = [''mark_type'' \<mapsto> mark_type], eqn_invars = [v],
      eqn_outvars = [Suc v]\<rparr>"

definition ex_op :: "string \<Rightarrow> nat \<Rightarrow> nat eqn" where
  "ex_op name v =
     \<lparr>primitive = other_primitive name, params = Map.empty, eqn_invars = [v],
      eqn_outvars = [Suc v]\<rparr>"

definition ex_graph :: "nat eqn list \<Rightarrow> (nat, nat) closed_jaxpr" where
  "ex_graph es =
     \<lparr>constvars = [], jaxpr_invars = [0], jaxpr_outvars = [length es], eqns = es, jaxpr_consts = []\<rparr>"

text \<open>A graph with stage markers and no gradient barrier, and one with two barriers.\<close>

definition ex_no_barrier :: "(nat, nat) closed_jaxpr" where
  "ex_no_barrier = ex_graph [ex_marker ''start'' 0, ex_op ''add'' 1, ex_marker ''end'' 2]"

definition ex_two_barriers :: "(nat, nat) closed_jaxpr" where
  "ex_two_barriers =
     ex_graph [ex_op ''mul'' 0, ex_marker ''grad'' 1, ex_op ''add'' 2, ex_marker ''grad'' 3,
               ex_op ''sub'' 4]"

section \<open>The stage-to-mesh assignment of \<open>three_d_parallel_callable\<close>\<close>

text \<open>
  Lines 147 to 150: the dictionary comprehension over the enumerated stages. The test
  \<open>i < stage_num / 2\<close> is Python's true division, taken here over the reals.
\<close>

definition stage_to_mesh_of :: "'s list \<Rightarrow> (nat \<rightharpoonup> nat)" where
  "stage_to_mesh_of jax_pipeline_stages =
     (let stage_num = length jax_pipeline_stages in
      fold (\<lambda>(i, _) m. m(i \<mapsto> (if real i < real stage_num / 2 then i else stage_num - i - 1)))
        (enumerate 0 jax_pipeline_stages) Map.empty)"

text \<open>
  Lines 103 to 260, around the assignment. The first argument is the outcome of lines 108
  to 143 (device check, tracing, split and slicing, all by collaborators): the sliced
  pipeline stages, or the error they raised. The second is the rest of the construction
  (lines 154 to 260), which receives the stages, the assignment and the mesh count and
  returns the callable. Lines 146 to 152 are modelled as written.
\<close>

definition three_d_parallel_callable ::
  "py_error + 's list \<Rightarrow> ('s list \<Rightarrow> (nat \<rightharpoonup> nat) \<Rightarrow> nat \<Rightarrow> py_error + 'r) \<Rightarrow> py_error + 'r" where
  "three_d_parallel_callable sliced build_rest =
     (case sliced of
        Inl e \<Rightarrow> Inl e
      | Inr jax_pipeline_stages \<Rightarrow>
          (let stage_num = length jax_pipeline_stages;
               stage_to_mesh = stage_to_mesh_of jax_pipeline_stages
           in if stage_num mod 2 = 0 then
                (let mesh_num = stage_num div 2
                 in build_rest jax_pipeline_stages stage_to_mesh mesh_num)
              else Inl AssertionError))"

section \<open>Properties of the donation analysis\<close>

subsection \<open>The parts of the computation\<close>

lemma not_donated_list_ok:
  "\<forall>i\<in>set is. i < length g \<Longrightarrow>
   not_donated_list d g is = Inr (map ((!) g) (filter (\<lambda>i. \<not> d ! i) is))"
  by (induction "is") auto

lemma not_donated_of_ok:
  "length d \<le> length g \<Longrightarrow> not_donated_of d g = Inr (not_donated_spec d g)"
  by (simp add: not_donated_of_def not_donated_spec_def not_donated_list_ok)

lemma fold_upd_const:
  "fold (\<lambda>invar m'. m'(invar \<mapsto> k)) vs m = (\<lambda>v. if v \<in> set vs then Some k else m v)"
  by (induction vs arbitrary: m) (auto simp: fun_eq_iff)

lemma global_last_use_of_snoc:
  "global_last_use_of (stages @ [st]) =
     (\<lambda>v. if v \<in> set (invars st) then Some (length stages) else global_last_use_of stages v)"
  unfolding global_last_use_of_def by (simp add: enumerate_append_eq fold_upd_const)

lemma global_last_use_of_Some_iff:
  "global_last_use_of stages v = Some l \<longleftrightarrow>
     l < length stages \<and> v \<in> set (invars (stages ! l)) \<and>
     (\<forall>i<length stages. v \<in> set (invars (stages ! i)) \<longrightarrow> i \<le> l)"
proof (induction stages arbitrary: l rule: rev_induct)
  case Nil
  show ?case by (simp add: global_last_use_of_def)
next
  case (snoc st stages)
  show ?case
  proof (cases "v \<in> set (invars st)")
    case True
    then show ?thesis
      by (auto simp: global_last_use_of_snoc nth_append less_Suc_eq)
  next
    case False
    then show ?thesis
      using snoc.IH [of l]
      by (auto simp: global_last_use_of_snoc nth_append less_Suc_eq)
  qed
qed

lemma global_last_use_of_None_iff:
  "global_last_use_of stages v = None \<longleftrightarrow>
     (\<forall>i<length stages. v \<notin> set (invars (stages ! i)))"
proof (induction stages rule: rev_induct)
  case Nil
  show ?case by (simp add: global_last_use_of_def)
next
  case (snoc st stages)
  then show ?case
    by (auto simp: global_last_use_of_snoc nth_append less_Suc_eq)
qed

lemma last_use_spec_eq:
  assumes "global_last_use_of stages v = Some l"
  shows "last_use_spec stages v = l"
proof -
  from assms have l: "l < length stages" "v \<in> set (invars (stages ! l))"
    and le: "\<And>i. i < length stages \<Longrightarrow> v \<in> set (invars (stages ! i)) \<Longrightarrow> i \<le> l"
    by (simp_all add: global_last_use_of_Some_iff)
  show ?thesis
    unfolding last_use_spec_def
    by (rule Max_eqI) (use l le in auto)
qed

lemma donate_flag_ok:
  assumes "global_last_use_of stages var \<noteq> None"
  shows "donate_flag nd ul mc (global_last_use_of stages) s var =
         Inr (\<not> (var \<in> nd \<or> var \<in> ul \<or> (var \<in> mc \<and> last_use_spec stages var > s)))"
proof -
  from assms obtain l where l: "global_last_use_of stages var = Some l" by auto
  then have "last_use_spec stages var = l" by (rule last_use_spec_eq)
  with l show ?thesis by (simp add: donate_flag_def)
qed

lemma donate_status_of_ok:
  assumes "\<forall>var\<in>set vars. global_last_use_of stages var \<noteq> None"
  shows "donate_status_of nd ul mc (global_last_use_of stages) s vars =
         Inr (map (\<lambda>var. \<not> (var \<in> nd \<or> var \<in> ul \<or> (var \<in> mc \<and> last_use_spec stages var > s))) vars)"
  using assms by (induction vars) (simp_all add: donate_flag_ok)

lemma stage_invars_have_last_use:
  "s < length stages \<Longrightarrow> var \<in> set (invars (stages ! s)) \<Longrightarrow> global_last_use_of stages var \<noteq> None"
  by (auto simp: global_last_use_of_None_iff)

lemma main_copy_vars_of_ok:
  "\<forall>s\<in>set g. s < length stages \<Longrightarrow>
   main_copy_vars_of stages g acc = Inr (acc \<union> main_copy_vars_spec stages g)"
  by (induction g arbitrary: acc) (auto simp: main_copy_vars_spec_def)

lemma use_later_spec_Cons_gt:
  "s < x \<Longrightarrow> use_later_spec stages (x # xs) s = set (invars (stages ! x)) \<union> use_later_spec stages xs s"
  by (simp add: use_later_spec_def)

lemma use_later_spec_no_gt:
  "\<forall>t\<in>set xs. \<not> s < t \<Longrightarrow> use_later_spec stages xs s = {}"
  by (auto simp: use_later_spec_def)

lemma walk_group_ok:
  assumes "sorted (rev xs)" "distinct xs" "\<forall>s\<in>set xs. s < length stages"
    and "length ans = length stages"
  shows "\<exists>ans'. walk_group nd mc (global_last_use_of stages) stages xs ul ans = Inr ans' \<and>
       length ans' = length stages \<and>
       (\<forall>s. s \<notin> set xs \<longrightarrow> ans' ! s = ans ! s) \<and>
       (\<forall>s\<in>set xs. ans' ! s =
          Some (map (\<lambda>var. \<not> (var \<in> nd \<or> var \<in> ul \<union> use_later_spec stages xs s \<or>
                       (var \<in> mc \<and> last_use_spec stages var > s)))
                 (invars (stages ! s))))"
  using assms
proof (induction xs arbitrary: ul ans)
  case Nil
  then show ?case by simp
next
  case (Cons x xs)
  let ?inv = "invars (stages ! x)"
  let ?ds = "map (\<lambda>var. \<not> (var \<in> nd \<or> var \<in> ul \<or> (var \<in> mc \<and> last_use_spec stages var > x))) ?inv"
  from Cons.prems have x: "x < length stages" and xs_lt: "\<forall>s\<in>set xs. s < length stages"
    and dist: "distinct xs" "x \<notin> set xs" by simp_all
  from Cons.prems(1) have sorted_xs: "sorted (rev xs)" and below: "\<forall>t\<in>set xs. t \<le> x"
    by (auto simp: sorted_append)
  from below dist have below_strict: "\<forall>t\<in>set xs. t < x"
    by (metis le_neq_implies_less)
  have ds: "donate_status_of nd ul mc (global_last_use_of stages) x ?inv = Inr ?ds"
    using x stage_invars_have_last_use [of x stages] by (intro donate_status_of_ok) blast
  have len: "length (ans[x := Some ?ds]) = length stages"
    using Cons.prems(4) by simp
  from Cons.IH [OF sorted_xs dist(1) xs_lt len, of "ul \<union> set ?inv"]
  obtain ans' where
    w: "walk_group nd mc (global_last_use_of stages) stages xs (ul \<union> set ?inv) (ans[x := Some ?ds]) = Inr ans'"
    and l': "length ans' = length stages"
    and keep: "\<And>s. s \<notin> set xs \<Longrightarrow> ans' ! s = (ans[x := Some ?ds]) ! s"
    and new: "\<And>s. s \<in> set xs \<Longrightarrow> ans' ! s =
          Some (map (\<lambda>var. \<not> (var \<in> nd \<or> var \<in> (ul \<union> set ?inv) \<union> use_later_spec stages xs s \<or>
                       (var \<in> mc \<and> last_use_spec stages var > s)))
                 (invars (stages ! s)))"
    by blast
  have step: "walk_group nd mc (global_last_use_of stages) stages (x # xs) ul ans = Inr ans'"
    using x ds w Cons.prems(4) by (simp add: Let_def)
  have at_x: "ans' ! x = Some ?ds"
    using keep [OF dist(2)] x Cons.prems(4) by simp
  have ul_x: "use_later_spec stages (x # xs) x = {}"
    using below by (intro use_later_spec_no_gt) auto
  have ul_s: "use_later_spec stages (x # xs) s = set ?inv \<union> use_later_spec stages xs s"
    if "s \<in> set xs" for s
    using that below_strict by (intro use_later_spec_Cons_gt) auto
  show ?case
  proof (intro exI conjI allI impI ballI)
    show "walk_group nd mc (global_last_use_of stages) stages (x # xs) ul ans = Inr ans'"
      by (rule step)
    show "length ans' = length stages" by (rule l')
  next
    fix s assume "s \<notin> set (x # xs)"
    then show "ans' ! s = ans ! s" using keep [of s] by simp
  next
    fix s assume s: "s \<in> set (x # xs)"
    show "ans' ! s =
          Some (map (\<lambda>var. \<not> (var \<in> nd \<or> var \<in> ul \<union> use_later_spec stages (x # xs) s \<or>
                       (var \<in> mc \<and> last_use_spec stages var > s)))
                 (invars (stages ! s)))"
    proof (cases "s = x")
      case True
      then show ?thesis using at_x ul_x by simp
    next
      case False
      with s have sx: "s \<in> set xs" by simp
      show ?thesis using new [OF sx] ul_s [OF sx] by (simp add: Un_assoc)
    qed
  qed
qed

lemma use_later_spec_cong:
  "set g = set g' \<Longrightarrow> use_later_spec stages g s = use_later_spec stages g' s"
  by (simp add: use_later_spec_def)

lemma main_copy_vars_spec_cong:
  "set g = set g' \<Longrightarrow> main_copy_vars_spec stages g = main_copy_vars_spec stages g'"
  by (simp add: main_copy_vars_spec_def)

lemma process_group_ok:
  assumes "distinct g" "\<forall>s\<in>set g. s < length stages" "length ans = length stages"
  shows "\<exists>ans'. process_group nd (global_last_use_of stages) stages g ans = Inr ans' \<and>
       length ans' = length stages \<and>
       (\<forall>s. s \<notin> set g \<longrightarrow> ans' ! s = ans ! s) \<and>
       (\<forall>s\<in>set g. ans' ! s =
          Some (map (\<lambda>var. \<not> not_donatable_spec nd stages g s var) (invars (stages ! s))))"
proof -
  let ?xs = "rev (sort g)"
  let ?mc = "main_copy_vars_spec stages g"
  have mc: "main_copy_vars_of stages (sort g) {} = Inr ?mc"
    using assms(2) main_copy_vars_of_ok [of "sort g" stages "{}"]
      main_copy_vars_spec_cong [of "sort g" g stages] by simp
  have "sorted (rev ?xs)" "distinct ?xs" "\<forall>s\<in>set ?xs. s < length stages"
    using assms(1,2) by simp_all
  from walk_group_ok [OF this assms(3), of nd ?mc "{}"]
  obtain ans' where
    w: "walk_group nd ?mc (global_last_use_of stages) stages ?xs {} ans = Inr ans'"
    and l': "length ans' = length stages"
    and keep: "\<And>s. s \<notin> set ?xs \<Longrightarrow> ans' ! s = ans ! s"
    and new: "\<And>s. s \<in> set ?xs \<Longrightarrow> ans' ! s =
          Some (map (\<lambda>var. \<not> (var \<in> nd \<or> var \<in> {} \<union> use_later_spec stages ?xs s \<or>
                       (var \<in> ?mc \<and> last_use_spec stages var > s)))
                 (invars (stages ! s)))"
    by blast
  have ul: "use_later_spec stages ?xs s = use_later_spec stages g s" for s
    by (rule use_later_spec_cong) simp
  have "process_group nd (global_last_use_of stages) stages g ans = Inr ans'"
    using mc w by (simp add: process_group_def)
  moreover have "ans' ! s = ans ! s" if "s \<notin> set g" for s
    using keep [of s] that by simp
  moreover have "ans' ! s =
      Some (map (\<lambda>var. \<not> not_donatable_spec nd stages g s var) (invars (stages ! s)))"
    if "s \<in> set g" for s
    using new [of s] that by (simp add: ul not_donatable_spec_def)
  ultimately show ?thesis using l' by blast
qed

lemma process_pattern_ok:
  assumes "distinct (concat pattern)" "\<forall>s\<in>set (concat pattern). s < length stages"
    and "length ans = length stages"
  shows "\<exists>ans'. process_pattern nd (global_last_use_of stages) stages pattern ans = Inr ans' \<and>
       length ans' = length stages \<and>
       (\<forall>s. s \<notin> set (concat pattern) \<longrightarrow> ans' ! s = ans ! s) \<and>
       (\<forall>g\<in>set pattern. \<forall>s\<in>set g. ans' ! s =
          Some (map (\<lambda>var. \<not> not_donatable_spec nd stages g s var) (invars (stages ! s))))"
  using assms
proof (induction pattern arbitrary: ans)
  case Nil
  then show ?case by simp
next
  case (Cons g pattern)
  from Cons.prems have dg: "distinct g" and dp: "distinct (concat pattern)"
    and disj: "set g \<inter> set (concat pattern) = {}"
    and lg: "\<forall>s\<in>set g. s < length stages"
    and lp: "\<forall>s\<in>set (concat pattern). s < length stages"
    by auto
  from process_group_ok [OF dg lg Cons.prems(3), of nd]
  obtain ans1 where
    g1: "process_group nd (global_last_use_of stages) stages g ans = Inr ans1"
    and l1: "length ans1 = length stages"
    and keep1: "\<And>s. s \<notin> set g \<Longrightarrow> ans1 ! s = ans ! s"
    and new1: "\<And>s. s \<in> set g \<Longrightarrow> ans1 ! s =
          Some (map (\<lambda>var. \<not> not_donatable_spec nd stages g s var) (invars (stages ! s)))"
    by blast
  from Cons.IH [OF dp lp l1]
  obtain ans' where
    p: "process_pattern nd (global_last_use_of stages) stages pattern ans1 = Inr ans'"
    and l': "length ans' = length stages"
    and keep: "\<And>s. s \<notin> set (concat pattern) \<Longrightarrow> ans' ! s = ans1 ! s"
    and new: "\<And>g' s. g' \<in> set pattern \<Longrightarrow> s \<in> set g' \<Longrightarrow> ans' ! s =
          Some (map (\<lambda>var. \<not> not_donatable_spec nd stages g' s var) (invars (stages ! s)))"
    by blast
  have "process_pattern nd (global_last_use_of stages) stages (g # pattern) ans = Inr ans'"
    using g1 p by simp
  moreover have "ans' ! s = ans ! s" if "s \<notin> set (concat (g # pattern))" for s
    using that keep [of s] keep1 [of s] by simp
  moreover have "ans' ! s =
      Some (map (\<lambda>var. \<not> not_donatable_spec nd stages g' s var) (invars (stages ! s)))"
    if "g' \<in> set (g # pattern)" "s \<in> set g'" for g' s
  proof (cases "g' \<in> set pattern")
    case True
    then show ?thesis using new that(2) by blast
  next
    case False
    with that have g': "g' = g" by simp
    with that(2) disj have "s \<notin> set (concat pattern)" by blast
    then show ?thesis using keep [of s] new1 [of s] that(2) g' by simp
  qed
  ultimately show ?case using l' by blast
qed

lemma group_of_eq:
  "distinct (concat pattern) \<Longrightarrow> g \<in> set pattern \<Longrightarrow> s \<in> set g \<Longrightarrow> group_of pattern s = g"
proof (induction pattern)
  case Nil
  then show ?case by simp
next
  case (Cons a pattern)
  show ?case
  proof (cases "s \<in> set a")
    case True
    with Cons.prems have "g = a" by auto
    with True show ?thesis by (simp add: group_of_def)
  next
    case False
    with Cons.prems have "g \<in> set pattern" by auto
    with Cons False show ?thesis by (simp add: group_of_def)
  qed
qed

lemma split_donate_invars_char:
  assumes "valid_input donated_invars global_invars stages pattern"
  shows "split_donate_invars donated_invars global_invars stages pattern =
         Inr (donation_table_spec donated_invars global_invars stages pattern)"
proof -
  let ?nd = "not_donated_spec donated_invars global_invars"
  from assms have len: "length donated_invars = length global_invars"
    and dist: "distinct (concat pattern)"
    and cover: "set (concat pattern) = {0..<length stages}"
    by (simp_all add: valid_input_def)
  have nd: "not_donated_of donated_invars global_invars = Inr ?nd"
    using len by (simp add: not_donated_of_ok)
  have lt: "\<forall>s\<in>set (concat pattern). s < length stages"
    using cover by simp
  from process_pattern_ok [OF dist lt, of "replicate (length stages) None" ?nd]
  obtain ans' where
    p: "process_pattern ?nd (global_last_use_of stages) stages pattern
          (replicate (length stages) None) = Inr ans'"
    and l': "length ans' = length stages"
    and new: "\<And>g s. g \<in> set pattern \<Longrightarrow> s \<in> set g \<Longrightarrow> ans' ! s =
          Some (map (\<lambda>var. \<not> not_donatable_spec ?nd stages g s var) (invars (stages ! s)))"
    by auto
  have "ans' = donation_table_spec donated_invars global_invars stages pattern"
  proof (rule nth_equalityI)
    show "length ans' = length (donation_table_spec donated_invars global_invars stages pattern)"
      using l' by (simp add: donation_table_spec_def)
  next
    fix s assume "s < length ans'"
    with l' have s: "s < length stages" by simp
    with cover have "s \<in> set (concat pattern)" by simp
    then obtain g where g: "g \<in> set pattern" "s \<in> set g" by auto
    have "group_of pattern s = g" using dist g by (rule group_of_eq)
    then show "ans' ! s = donation_table_spec donated_invars global_invars stages pattern ! s"
      using new [OF g] s by (simp add: donation_table_spec_def)
  qed
  with nd p show ?thesis by (simp add: split_donate_invars_def)
qed

subsection \<open>A concrete pipeline\<close>

lemma ex_valid_input: "valid_input [True] [0::nat] ex_stages ex_pattern"
  by (auto simp: valid_input_def ex_stages_def ex_pattern_def)

lemma ex_split_donate_invars:
  "split_donate_invars [True] [0::nat] ex_stages ex_pattern =
     Inr [Some [True], Some [True, False], Some [True, True], Some [True, True]]"
  by (simp add: split_donate_invars_def not_donated_of_def global_last_use_of_def ex_stages_def
      ex_pattern_def process_group_def donate_flag_def)

subsection \<open>The claims about \<open>split_donate_invars\<close>\<close>

text \<open>
  Claim C3. On every valid input \<open>split_donate_invars\<close> returns the table the
  specification describes: the entry of a stage marks an input not donatable exactly when
  (a) it is a non-donated global input, or (b) a later stage of the same serial group reads
  it (the set \<open>use_later\<close> of the reverse walk, to which every processed stage adds its
  inputs), or (c) it is an output of the group (a main copy) whose last use by global
  stage position lies strictly after the stage; otherwise it marks the input donatable.
\<close>

theorem split_donate_invars_refines_spec:
  assumes "valid_input donated_invars global_invars stages pattern"
  shows "split_donate_invars donated_invars global_invars stages pattern =
         Inr (donation_table_spec donated_invars global_invars stages pattern)"
  using assms by (rule split_donate_invars_char)

theorem split_donate_invars_refines_spec_witness:
  "valid_input [True] [0::nat] ex_stages ex_pattern \<and>
   split_donate_invars [True] [0::nat] ex_stages ex_pattern =
     Inr (donation_table_spec [True] [0::nat] ex_stages ex_pattern) \<and>
   split_donate_invars [True] [0::nat] ex_stages ex_pattern =
     Inr [Some [True], Some [True, False], Some [True, True], Some [True, True]]"
  using split_donate_invars_refines_spec [OF ex_valid_input] ex_valid_input ex_split_donate_invars
  by simp

text \<open>
  Claim C8. On every valid input \<open>split_donate_invars\<close> returns one boolean sequence per
  stage, in the order of the stage list, and the sequence of a stage is as long as the
  input-variable list of that stage.
\<close>

theorem split_donate_invars_shape:
  assumes "valid_input donated_invars global_invars stages pattern"
  shows "\<exists>ans. split_donate_invars donated_invars global_invars stages pattern = Inr ans \<and>
           list_all2 (\<lambda>a st. \<exists>donate_status. a = Some donate_status \<and>
                        length donate_status = length (invars st)) ans stages"
proof -
  have "list_all2 (\<lambda>a st. \<exists>donate_status. a = Some donate_status \<and>
                        length donate_status = length (invars st))
          (donation_table_spec donated_invars global_invars stages pattern) stages"
    by (simp add: list_all2_conv_all_nth donation_table_spec_def)
  with split_donate_invars_char [OF assms] show ?thesis by simp
qed

theorem split_donate_invars_shape_witness:
  "valid_input [True] [0::nat] ex_stages ex_pattern \<and>
   (\<exists>ans. split_donate_invars [True] [0::nat] ex_stages ex_pattern = Inr ans \<and>
           list_all2 (\<lambda>a st. \<exists>donate_status. a = Some donate_status \<and>
                        length donate_status = length (invars st)) ans ex_stages)"
  using split_donate_invars_shape [OF ex_valid_input] ex_valid_input by simp

lemma donation_table_spec_nth:
  "s < length stages \<Longrightarrow>
   donation_table_spec donated_invars global_invars stages pattern ! s =
     Some (map (\<lambda>var. \<not> not_donatable_spec (not_donated_spec donated_invars global_invars)
                        stages (group_of pattern s) s var)
             (invars (stages ! s)))"
  by (simp add: donation_table_spec_def)

lemma not_donated_spec_member:
  "i < length donated_invars \<Longrightarrow> \<not> donated_invars ! i \<Longrightarrow>
   global_invars ! i \<in> not_donated_spec donated_invars global_invars"
  by (auto simp: not_donated_spec_def)

text \<open>
  Claim C2. On every valid input, for every stage and every position of its input list: when
  the variable at that position is a global input whose caller-supplied donation flag is
  false, the boolean returned for that position is false.
\<close>

theorem non_donated_global_never_donatable:
  assumes "valid_input donated_invars global_invars stages pattern"
    and "s < length stages" and "j < length (invars (stages ! s))"
    and "i < length global_invars" and "global_invars ! i = invars (stages ! s) ! j"
    and "\<not> donated_invars ! i"
  shows "\<exists>ans donate_status.
           split_donate_invars donated_invars global_invars stages pattern = Inr ans \<and>
           ans ! s = Some donate_status \<and>
           length donate_status = length (invars (stages ! s)) \<and>
           donate_status ! j = False"
proof -
  let ?nd = "not_donated_spec donated_invars global_invars"
  let ?ans = "donation_table_spec donated_invars global_invars stages pattern"
  let ?ds = "map (\<lambda>var. \<not> not_donatable_spec ?nd stages (group_of pattern s) s var)
               (invars (stages ! s))"
  from assms(1) have "length donated_invars = length global_invars"
    by (simp add: valid_input_def)
  with assms(4,6) have "global_invars ! i \<in> ?nd"
    by (simp add: not_donated_spec_member)
  with assms(5) have "not_donatable_spec ?nd stages (group_of pattern s) s (invars (stages ! s) ! j)"
    by (simp add: not_donatable_spec_def)
  with assms(3) have "?ds ! j = False" by simp
  moreover have "?ans ! s = Some ?ds" using assms(2) by (rule donation_table_spec_nth)
  moreover have "length ?ds = length (invars (stages ! s))" by simp
  ultimately show ?thesis using split_donate_invars_char [OF assms(1)] by blast
qed

lemma ex_valid_input_not_donated: "valid_input [False] [0::nat] ex_stages ex_pattern"
  by (auto simp: valid_input_def ex_stages_def ex_pattern_def)

lemma ex_split_donate_invars_not_donated:
  "split_donate_invars [False] [0::nat] ex_stages ex_pattern =
     Inr [Some [False], Some [False, False], Some [True, True], Some [True, True]]"
  by (simp add: split_donate_invars_def not_donated_of_def global_last_use_of_def ex_stages_def
      ex_pattern_def process_group_def donate_flag_def)

theorem non_donated_global_never_donatable_witness:
  "valid_input [False] [0::nat] ex_stages ex_pattern \<and>
   (1::nat) < length ex_stages \<and> (0::nat) < length (invars (ex_stages ! 1)) \<and>
   (0::nat) < length [0::nat] \<and> [0::nat] ! 0 = invars (ex_stages ! 1) ! 0 \<and> [False] ! 0 = False \<and>
   (\<exists>ans donate_status.
      split_donate_invars [False] [0::nat] ex_stages ex_pattern = Inr ans \<and>
      ans ! 1 = Some donate_status \<and>
      length donate_status = length (invars (ex_stages ! 1)) \<and>
      donate_status ! 0 = False)"
proof -
  have h: "(1::nat) < length ex_stages" "(0::nat) < length (invars (ex_stages ! 1))"
    "(0::nat) < length [0::nat]" "[0::nat] ! 0 = invars (ex_stages ! 1) ! 0" "\<not> [False] ! 0"
    by (simp_all add: ex_stages_def)
  from non_donated_global_never_donatable [OF ex_valid_input_not_donated h]
  show ?thesis using ex_valid_input_not_donated h by simp
qed

lemma sort_mset_cong: "mset g = mset g' \<Longrightarrow> sort g = sort (g' :: nat list)"
  by (metis mset_sort properties_for_sort sorted_sort)

lemma process_group_mset_cong:
  "mset g = mset g' \<Longrightarrow>
   process_group nd glu stages g ans = process_group nd glu stages g' ans"
  by (simp add: process_group_def sort_mset_cong [of g g'])

lemma process_pattern_mset_cong:
  "list_all2 (\<lambda>g g'. mset g = mset g') pattern pattern' \<Longrightarrow>
   process_pattern nd glu stages pattern ans = process_pattern nd glu stages pattern' ans"
proof (induction pattern pattern' arbitrary: ans rule: list_all2_induct)
  case Nil
  show ?case by simp
next
  case (Cons g pattern g' pattern')
  then show ?case
    by (simp add: process_group_mset_cong [of g g'] split: sum.splits)
qed

lemma process_pattern_same_sets:
  assumes "list_all2 (\<lambda>g g'. distinct g \<and> distinct g' \<and> set g = set g') pattern pattern'"
  shows "process_pattern nd glu stages pattern ans = process_pattern nd glu stages pattern' ans"
proof -
  have "list_all2 (\<lambda>g g'. mset g = mset g') pattern pattern'"
    using assms by (rule list_all2_mono) (auto simp: set_eq_iff_mset_eq_distinct)
  then show ?thesis by (rule process_pattern_mset_cong)
qed

text \<open>
  Claim C9. The result does not depend on the order of the indices within a serial group:
  two patterns whose groups are, one by one, permutations of each other give the same
  result (each group is sorted before the reverse walk). For duplicate-free groups, as in
  a partition, being permutations of each other is containing the same set of indices.
\<close>

theorem split_donate_invars_group_order_irrelevant:
  assumes "list_all2 (\<lambda>g g'. mset g = mset g') pattern pattern'"
  shows "split_donate_invars donated_invars global_invars stages pattern =
         split_donate_invars donated_invars global_invars stages pattern'"
proof (cases "not_donated_of donated_invars global_invars")
  case (Inl e)
  then show ?thesis by (simp add: split_donate_invars_def)
next
  case (Inr not_donated)
  then show ?thesis
    by (simp add: split_donate_invars_def process_pattern_mset_cong [OF assms])
qed

theorem split_donate_invars_group_order_irrelevant_witness:
  "list_all2 (\<lambda>g g'. mset g = mset g') ex_pattern [[3, 0], [2, 1]] \<and>
   split_donate_invars [True] [0::nat] ex_stages ex_pattern =
     split_donate_invars [True] [0::nat] ex_stages [[3, 0], [2, 1]] \<and>
   split_donate_invars [True] [0::nat] ex_stages [[3, 0], [2, 1]] =
     Inr [Some [True], Some [True, False], Some [True, True], Some [True, True]]"
proof -
  have h: "list_all2 (\<lambda>g g'. mset g = mset g') ex_pattern [[3, 0], [2, 1]]"
    by (simp add: ex_pattern_def add.commute)
  from split_donate_invars_group_order_irrelevant [OF h, of "[True]" "[0::nat]" ex_stages]
  show ?thesis using h ex_split_donate_invars by simp
qed

lemma zip_map_same: "zip xs (map f xs) = map (\<lambda>x. (x, f x)) xs"
  by (induction xs) simp_all

lemma marked_donatable_table:
  "marked_donatable (donation_table_spec donated_invars global_invars stages pattern) stages s var
   \<longleftrightarrow> s < length stages \<and> var \<in> set (invars (stages ! s)) \<and>
       \<not> not_donatable_spec (not_donated_spec donated_invars global_invars) stages
            (group_of pattern s) s var"
proof (cases "s < length stages")
  case True
  then show ?thesis
    by (auto simp: marked_donatable_def donation_table_spec_def zip_map_same)
next
  case False
  then show ?thesis by (simp add: marked_donatable_def)
qed

lemma last_use_spec_ge:
  "t < length stages \<Longrightarrow> var \<in> set (invars (stages ! t)) \<Longrightarrow> t \<le> last_use_spec stages var"
  unfolding last_use_spec_def by (rule Max_ge) auto

lemma last_use_spec_reads:
  assumes "t < length stages" "var \<in> set (invars (stages ! t))"
  shows "last_use_spec stages var < length stages \<and>
         var \<in> set (invars (stages ! last_use_spec stages var))"
proof -
  let ?S = "set (filter (\<lambda>t. var \<in> set (invars (stages ! t))) [0..<length stages])"
  have "finite ?S" by simp
  moreover from assms have "?S \<noteq> {}" by auto
  ultimately have "Max ?S \<in> ?S" by (rule Max_in)
  then show ?thesis by (simp add: last_use_spec_def)
qed

lemma use_later_spec_iff:
  "var \<in> use_later_spec stages g s \<longleftrightarrow> (\<exists>t\<in>set g. s < t \<and> var \<in> set (invars (stages ! t)))"
  by (auto simp: use_later_spec_def)

lemma group_of_subset:
  "set (group_of pattern s) \<subseteq> set (concat pattern)"
proof (cases "find (\<lambda>g. s \<in> set g) pattern")
  case None
  then show ?thesis by (simp add: group_of_def)
next
  case (Some g)
  then have "g \<in> set pattern" by (auto simp: find_Some_iff)
  with Some show ?thesis by (auto simp: group_of_def)
qed

text \<open>
  Claim C1, as the code has it. On every valid input and for every variable marked
  donatable in some stage \<open>s\<close>: every stage \<open>t\<close> that reads the variable is followed
  (or equalled) by a stage in which the variable is marked donatable, so the last
  true-donation mark occurs at or after every stage that reads it; and \<open>t\<close> is not later
  than \<open>s\<close> when \<open>t\<close> belongs to the serial group of \<open>s\<close> or when the variable is a
  main copy of that group (an output of one of its stages). A copy held by a group that
  does not produce the variable may be marked donatable before a stage of another group
  reads the variable.
\<close>

theorem donation_marks_respect_readers:
  assumes "valid_input donated_invars global_invars stages pattern"
  shows "\<exists>ans. split_donate_invars donated_invars global_invars stages pattern = Inr ans \<and>
     (\<forall>s t var.
        marked_donatable ans stages s var \<and> t < length stages \<and> var \<in> set (invars (stages ! t))
        \<longrightarrow> (\<exists>s'. t \<le> s' \<and> marked_donatable ans stages s' var) \<and>
            (t \<in> set (group_of pattern s) \<or>
             var \<in> main_copy_vars_spec stages (group_of pattern s) \<longrightarrow> t \<le> s))"
proof -
  let ?nd = "not_donated_spec donated_invars global_invars"
  let ?ans = "donation_table_spec donated_invars global_invars stages pattern"
  from assms have cover: "set (concat pattern) = {0..<length stages}"
    by (simp add: valid_input_def)
  have main: "(\<exists>s'. t \<le> s' \<and> marked_donatable ?ans stages s' var) \<and>
            (t \<in> set (group_of pattern s) \<or>
             var \<in> main_copy_vars_spec stages (group_of pattern s) \<longrightarrow> t \<le> s)"
    if m: "marked_donatable ?ans stages s var" and t: "t < length stages"
      and r: "var \<in> set (invars (stages ! t))" for s t var
  proof
    from m have s: "s < length stages" and rs: "var \<in> set (invars (stages ! s))"
      and ok: "\<not> not_donatable_spec ?nd stages (group_of pattern s) s var"
      by (simp_all add: marked_donatable_table)
    let ?l = "last_use_spec stages var"
    from last_use_spec_reads [OF t r] have l: "?l < length stages"
      and rl: "var \<in> set (invars (stages ! ?l))" by simp_all
    have no_later: "u \<le> ?l" if "u < length stages" "var \<in> set (invars (stages ! u))" for u
      using that by (rule last_use_spec_ge)
    have "var \<notin> use_later_spec stages (group_of pattern ?l) ?l"
    proof
      assume "var \<in> use_later_spec stages (group_of pattern ?l) ?l"
      then obtain u where u: "u \<in> set (group_of pattern ?l)" "?l < u"
        "var \<in> set (invars (stages ! u))"
        by (auto simp: use_later_spec_iff)
      from u(1) group_of_subset [of pattern ?l] cover have "u < length stages" by auto
      then have "u \<le> ?l" using u(3) by (rule no_later)
      with u(2) show False by simp
    qed
    moreover from ok have "var \<notin> ?nd" by (simp add: not_donatable_spec_def)
    ultimately have "\<not> not_donatable_spec ?nd stages (group_of pattern ?l) ?l var"
      by (simp add: not_donatable_spec_def)
    with l rl have "marked_donatable ?ans stages ?l var"
      by (simp add: marked_donatable_table)
    moreover have "t \<le> ?l" using t r by (rule no_later)
    ultimately show "\<exists>s'. t \<le> s' \<and> marked_donatable ?ans stages s' var" by blast
    show "t \<in> set (group_of pattern s) \<or>
          var \<in> main_copy_vars_spec stages (group_of pattern s) \<longrightarrow> t \<le> s"
    proof
      assume "t \<in> set (group_of pattern s) \<or> var \<in> main_copy_vars_spec stages (group_of pattern s)"
      then show "t \<le> s"
      proof
        assume "t \<in> set (group_of pattern s)"
        with ok r show ?thesis
          by (auto simp: not_donatable_spec_def use_later_spec_iff not_less)
      next
        assume "var \<in> main_copy_vars_spec stages (group_of pattern s)"
        with ok have "?l \<le> s" by (simp add: not_donatable_spec_def)
        with no_later [OF t r] show ?thesis by simp
      qed
    qed
  qed
  from split_donate_invars_char [OF assms] main show ?thesis by blast
qed


theorem donation_marks_respect_readers_witness:
  "valid_input [True] [0::nat] ex_stages ex_pattern \<and>
   (\<exists>ans. split_donate_invars [True] [0::nat] ex_stages ex_pattern = Inr ans \<and>
      marked_donatable ans ex_stages 2 1 \<and> (1::nat) \<in> set (invars (ex_stages ! 3)) \<and>
      (\<exists>s'. 3 \<le> s' \<and> marked_donatable ans ex_stages s' 1) \<and>
      marked_donatable ans ex_stages 3 1 \<and> (1::nat) \<in> set (invars (ex_stages ! 1)) \<and>
      (1::nat) \<in> main_copy_vars_spec ex_stages (group_of ex_pattern 3) \<and> (1::nat) \<le> 3)"
proof -
  let ?ans = "[Some [True], Some [True, False], Some [True, True], Some [True, True]]"
  from donation_marks_respect_readers [OF ex_valid_input]
  have all: "\<forall>s t var.
        marked_donatable ?ans ex_stages s var \<and> t < length ex_stages \<and>
        var \<in> set (invars (ex_stages ! t))
        \<longrightarrow> (\<exists>s'. t \<le> s' \<and> marked_donatable ?ans ex_stages s' var) \<and>
            (t \<in> set (group_of ex_pattern s) \<or>
             var \<in> main_copy_vars_spec ex_stages (group_of ex_pattern s) \<longrightarrow> t \<le> s)"
    by (simp add: ex_split_donate_invars)
  have m2: "marked_donatable ?ans ex_stages 2 1" and m3: "marked_donatable ?ans ex_stages 3 1"
    by (simp_all add: marked_donatable_def ex_stages_def)
  have r: "3 < length ex_stages" "(1::nat) \<in> set (invars (ex_stages ! 3))"
    "(1::nat) \<in> set (invars (ex_stages ! 1))"
    by (simp_all add: ex_stages_def)
  have mc: "(1::nat) \<in> main_copy_vars_spec ex_stages (group_of ex_pattern 3)"
    by (simp add: main_copy_vars_spec_def group_of_def ex_pattern_def ex_stages_def)
  from all m2 r have "\<exists>s'. 3 \<le> s' \<and> marked_donatable ?ans ex_stages s' 1" by blast
  with m2 m3 r mc ex_valid_input ex_split_donate_invars show ?thesis by simp
qed

text \<open>
  Claim C1 as stated says that no variable is marked donatable in a stage that executes
  before another stage that reads it. In the four-stage pipeline variable 1, produced by
  stage 0 on the first mesh, is marked donatable in stage 2 on the second mesh, and stage
  3 reads it.
\<close>

theorem donated_before_later_read_counterexample:
  "valid_input [True] [0::nat] ex_stages ex_pattern \<and>
   split_donate_invars [True] [0::nat] ex_stages ex_pattern =
     Inr [Some [True], Some [True, False], Some [True, True], Some [True, True]] \<and>
   marked_donatable [Some [True], Some [True, False], Some [True, True], Some [True, True]]
     ex_stages 2 1 \<and>
   (2::nat) < 3 \<and> (1::nat) \<in> set (invars (ex_stages ! 3))"
proof -
  have "marked_donatable [Some [True], Some [True, False], Some [True, True], Some [True, True]]
     ex_stages 2 1"
    by (simp add: marked_donatable_def ex_stages_def)
  moreover have "(1::nat) \<in> set (invars (ex_stages ! 3))" by (simp add: ex_stages_def)
  ultimately show ?thesis using ex_valid_input ex_split_donate_invars by simp
qed

section \<open>Properties of \<open>split_compute_and_apply\<close>\<close>

lemma find_split_eqn_append:
  "find_split_eqn (xs @ ys) split =
     (case find_split_eqn xs split of Inl e \<Rightarrow> Inl e | Inr split' \<Rightarrow> find_split_eqn ys split')"
  by (induction xs split rule: find_split_eqn.induct) (auto split: option.splits)

lemma find_split_eqn_total:
  "\<forall>e\<in>set es. marker_has_type e \<Longrightarrow> \<exists>split'. find_split_eqn (enumerate k es) split = Inr split'"
  by (induction es arbitrary: k split) (auto simp: marker_has_type_def split: option.splits)

lemma find_split_eqn_no_marker:
  "\<forall>e\<in>set es. marker_has_type e \<Longrightarrow> \<forall>e\<in>set es. \<not> is_grad_marker e \<Longrightarrow>
   find_split_eqn (enumerate k es) split = Inr split"
  by (induction es arbitrary: k split)
     (auto simp: marker_has_type_def is_grad_marker_def split: option.splits)

lemma find_split_eqn_last:
  assumes "\<forall>e\<in>set (pre @ [b] @ post). marker_has_type e" "is_grad_marker b"
    and "\<forall>e\<in>set post. \<not> is_grad_marker e"
  shows "find_split_eqn (enumerate 0 (pre @ [b] @ post)) split = Inr (Some (b, length pre))"
proof -
  from assms(1) have wf: "\<forall>e\<in>set pre. marker_has_type e" "\<forall>e\<in>set post. marker_has_type e"
    by simp_all
  from find_split_eqn_total [OF wf(1), of 0 split]
  obtain split' where pre: "find_split_eqn (enumerate 0 pre) split = Inr split'" by blast
  have post: "find_split_eqn (enumerate (Suc (length pre)) post) (Some (b, length pre)) =
              Inr (Some (b, length pre))"
    using wf(2) assms(3) by (rule find_split_eqn_no_marker)
  show ?thesis
    using pre post assms(2)
    by (simp add: enumerate_append_eq find_split_eqn_append is_grad_marker_def)
qed

lemma split_at_last_marker:
  assumes "eqns closed_jaxpr = pre @ [b] @ post"
    and "\<forall>e\<in>set (eqns closed_jaxpr). marker_has_type e"
    and "is_grad_marker b" and "\<forall>e\<in>set post. \<not> is_grad_marker e"
    and "slices_to_jaxpr closed_jaxpr [pre, [b], post] = [compute, mid, apply]"
  shows "split_compute_and_apply slices_to_jaxpr closed_jaxpr =
           (Inr (compute, apply, Some b), [])"
proof -
  have "find_split_eqn (enumerate 0 (eqns closed_jaxpr)) None = Inr (Some (b, length pre))"
    using assms(1-4) find_split_eqn_last [of pre b post None] by simp
  moreover have "take (length pre) (eqns closed_jaxpr) = pre"
    "drop (length pre + 1) (eqns closed_jaxpr) = post"
    using assms(1) by simp_all
  ultimately show ?thesis
    using assms(5) by (simp add: split_compute_and_apply_def)
qed

text \<open>
  Claim C4. For every graph none of whose equations is a gradient-barrier marker,
  \<open>split_compute_and_apply\<close> raises nothing: it returns the input graph as the compute
  graph, the empty graph as the apply graph and no barrier, and logs one warning. The
  graph is one whose pipeline markers carry their mark type, as every traced marker does.
\<close>

theorem split_without_barrier:
  assumes "\<forall>e\<in>set (eqns closed_jaxpr). marker_has_type e"
    and "\<forall>e\<in>set (eqns closed_jaxpr). \<not> is_grad_marker e"
  shows "split_compute_and_apply slices_to_jaxpr closed_jaxpr =
           (Inr (closed_jaxpr, empty_closed_jaxpr, None), [missing_barrier_warning])"
  using find_split_eqn_no_marker [OF assms, of 0 None]
  by (simp add: split_compute_and_apply_def)

text \<open>
  Claim C5. For every graph that contains a gradient-barrier marker,
  \<open>split_compute_and_apply\<close> returns three parts: the compute graph that
  \<open>slices_to_jaxpr\<close> builds from exactly the equations before the barrier, the barrier
  equation itself, and the apply graph built from exactly the equations after it. The
  helper returns one graph per slice.
\<close>

theorem split_with_barrier:
  assumes "\<forall>e\<in>set (eqns closed_jaxpr). marker_has_type e"
    and "\<exists>e\<in>set (eqns closed_jaxpr). is_grad_marker e"
    and "\<forall>sliced_eqns. length (slices_to_jaxpr closed_jaxpr sliced_eqns) = length sliced_eqns"
  shows "\<exists>pre b post compute mid apply.
           eqns closed_jaxpr = pre @ [b] @ post \<and> is_grad_marker b \<and>
           (\<forall>e\<in>set post. \<not> is_grad_marker e) \<and>
           slices_to_jaxpr closed_jaxpr [pre, [b], post] = [compute, mid, apply] \<and>
           split_compute_and_apply slices_to_jaxpr closed_jaxpr =
             (Inr (compute, apply, Some b), [])"
proof -
  from split_list_last_prop [OF assms(2)]
  obtain pre b post where d: "eqns closed_jaxpr = pre @ b # post" "is_grad_marker b"
    "\<forall>e\<in>set post. \<not> is_grad_marker e" by blast
  from assms(3) have "length (slices_to_jaxpr closed_jaxpr [pre, [b], post]) = 3" by simp
  then obtain compute mid apply_graph where
    s: "slices_to_jaxpr closed_jaxpr [pre, [b], post] = [compute, mid, apply_graph]"
    by (auto simp: length_Suc_conv numeral_3_eq_3)
  from d(1) have e: "eqns closed_jaxpr = pre @ [b] @ post" by simp
  have "split_compute_and_apply slices_to_jaxpr closed_jaxpr =
          (Inr (compute, apply_graph, Some b), [])"
    using e assms(1) d(2,3) s by (rule split_at_last_marker)
  with e d(2,3) s show ?thesis by blast
qed

text \<open>
  Claim C10. When the graph has more than one gradient-barrier marker, the split is at the
  last one: with \<open>b\<close> the last marker, \<open>pre\<close> the equations before it and \<open>post\<close>
  those after it, the compute graph is built from \<open>pre\<close>, and every other barrier
  equation of the graph is an equation of \<open>pre\<close>.
\<close>

theorem split_at_last_barrier:
  assumes "eqns closed_jaxpr = pre @ [b] @ post"
    and "\<forall>e\<in>set (eqns closed_jaxpr). marker_has_type e"
    and "is_grad_marker b" and "\<forall>e\<in>set post. \<not> is_grad_marker e"
    and "slices_to_jaxpr closed_jaxpr [pre, [b], post] = [compute, mid, apply]"
  shows "split_compute_and_apply slices_to_jaxpr closed_jaxpr =
           (Inr (compute, apply, Some b), []) \<and>
         (\<forall>i<length (eqns closed_jaxpr).
            is_grad_marker (eqns closed_jaxpr ! i) \<and> i \<noteq> length pre \<longrightarrow>
            i < length pre \<and> pre ! i = eqns closed_jaxpr ! i)"
proof
  show "split_compute_and_apply slices_to_jaxpr closed_jaxpr =
           (Inr (compute, apply, Some b), [])"
    using assms by (rule split_at_last_marker)
  show "\<forall>i<length (eqns closed_jaxpr).
            is_grad_marker (eqns closed_jaxpr ! i) \<and> i \<noteq> length pre \<longrightarrow>
            i < length pre \<and> pre ! i = eqns closed_jaxpr ! i"
  proof (intro allI impI)
    fix i assume i: "i < length (eqns closed_jaxpr)"
      and m: "is_grad_marker (eqns closed_jaxpr ! i) \<and> i \<noteq> length pre"
    have "\<not> length pre < i"
    proof
      assume gt: "length pre < i"
      with i assms(1) have "eqns closed_jaxpr ! i = post ! (i - Suc (length pre))"
        "i - Suc (length pre) < length post"
        by (auto simp: nth_append nth_Cons')
      with assms(4) m show False by (metis nth_mem)
    qed
    with m have "i < length pre" by simp
    with assms(1) show "i < length pre \<and> pre ! i = eqns closed_jaxpr ! i"
      by (simp add: nth_append)
  qed
qed


lemma ex_no_barrier_eval:
  "split_compute_and_apply ex_slices_to_jaxpr ex_no_barrier =
     (Inr (ex_no_barrier, empty_closed_jaxpr, None), [missing_barrier_warning])"
  by (simp add: split_compute_and_apply_def ex_no_barrier_def ex_graph_def ex_marker_def ex_op_def)

theorem split_without_barrier_witness:
  "list_all marker_has_type (eqns ex_no_barrier) \<and>
   list_all (\<lambda>e. \<not> is_grad_marker e) (eqns ex_no_barrier) \<and>
   split_compute_and_apply ex_slices_to_jaxpr ex_no_barrier =
     (Inr (ex_no_barrier, empty_closed_jaxpr, None), [missing_barrier_warning])"
proof -
  have h: "\<forall>e\<in>set (eqns ex_no_barrier). marker_has_type e"
    "\<forall>e\<in>set (eqns ex_no_barrier). \<not> is_grad_marker e"
    by (simp_all add: ex_no_barrier_def ex_graph_def ex_marker_def ex_op_def marker_has_type_def
        is_grad_marker_def)
  from split_without_barrier [OF h, of ex_slices_to_jaxpr] h
  show ?thesis by (simp add: list_all_iff)
qed

lemma ex_two_barriers_eval:
  "split_compute_and_apply ex_slices_to_jaxpr ex_two_barriers =
     (Inr (ex_two_barriers\<lparr>eqns := [ex_op ''mul'' 0, ex_marker ''grad'' 1, ex_op ''add'' 2]\<rparr>,
           ex_two_barriers\<lparr>eqns := [ex_op ''sub'' 4]\<rparr>,
           Some (ex_marker ''grad'' 3)), [])"
  by (simp add: split_compute_and_apply_def ex_two_barriers_def ex_graph_def ex_marker_def
      ex_op_def ex_slices_to_jaxpr_def)


lemma ex_two_barriers_wf: "\<forall>e\<in>set (eqns ex_two_barriers). marker_has_type e"
  by (simp add: ex_two_barriers_def ex_graph_def ex_marker_def ex_op_def marker_has_type_def)

lemma ex_slices_to_jaxpr_length:
  "\<forall>sliced_eqns. length (ex_slices_to_jaxpr closed_jaxpr sliced_eqns) = length sliced_eqns"
  by (simp add: ex_slices_to_jaxpr_def)

theorem split_with_barrier_witness:
  "list_all marker_has_type (eqns ex_two_barriers) \<and>
   list_ex is_grad_marker (eqns ex_two_barriers) \<and>
   (\<exists>pre b post compute mid apply.
      eqns ex_two_barriers = pre @ [b] @ post \<and> is_grad_marker b \<and>
      (\<forall>e\<in>set post. \<not> is_grad_marker e) \<and>
      ex_slices_to_jaxpr ex_two_barriers [pre, [b], post] = [compute, mid, apply] \<and>
      split_compute_and_apply ex_slices_to_jaxpr ex_two_barriers =
        (Inr (compute, apply, Some b), [])) \<and>
   split_compute_and_apply ex_slices_to_jaxpr ex_two_barriers =
     (Inr (ex_two_barriers\<lparr>eqns := [ex_op ''mul'' 0, ex_marker ''grad'' 1, ex_op ''add'' 2]\<rparr>,
           ex_two_barriers\<lparr>eqns := [ex_op ''sub'' 4]\<rparr>,
           Some (ex_marker ''grad'' 3)), [])"
proof -
  have h: "\<exists>e\<in>set (eqns ex_two_barriers). is_grad_marker e"
    by (simp add: ex_two_barriers_def ex_graph_def ex_marker_def ex_op_def is_grad_marker_def)
  have a: "list_all marker_has_type (eqns ex_two_barriers)"
    using ex_two_barriers_wf by (simp add: list_all_iff)
  have b: "list_ex is_grad_marker (eqns ex_two_barriers)"
    using h by (simp add: list_ex_iff)
  note c = split_with_barrier [OF ex_two_barriers_wf h ex_slices_to_jaxpr_length]
  from a b c ex_two_barriers_eval show ?thesis by (intro conjI)
qed

theorem split_at_last_barrier_witness:
  "eqns ex_two_barriers =
     [ex_op ''mul'' 0, ex_marker ''grad'' 1, ex_op ''add'' 2] @ [ex_marker ''grad'' 3] @
     [ex_op ''sub'' 4] \<and>
   list_all marker_has_type (eqns ex_two_barriers) \<and>
   is_grad_marker (ex_marker ''grad'' 3 :: nat eqn) \<and>
   is_grad_marker (ex_marker ''grad'' 1 :: nat eqn) \<and>
   list_all (\<lambda>e. \<not> is_grad_marker e) [ex_op ''sub'' 4 :: nat eqn] \<and>
   split_compute_and_apply ex_slices_to_jaxpr ex_two_barriers =
     (Inr (ex_two_barriers\<lparr>eqns := [ex_op ''mul'' 0, ex_marker ''grad'' 1, ex_op ''add'' 2]\<rparr>,
           ex_two_barriers\<lparr>eqns := [ex_op ''sub'' 4]\<rparr>,
           Some (ex_marker ''grad'' 3)), [])"
proof -
  let ?pre = "[ex_op ''mul'' 0, ex_marker ''grad'' 1, ex_op ''add'' 2] :: nat eqn list"
  let ?b = "ex_marker ''grad'' 3 :: nat eqn"
  let ?post = "[ex_op ''sub'' 4] :: nat eqn list"
  have e: "eqns ex_two_barriers = ?pre @ [?b] @ ?post"
    by (simp add: ex_two_barriers_def ex_graph_def)
  have m: "is_grad_marker ?b" "is_grad_marker (ex_marker ''grad'' 1 :: nat eqn)"
    by (simp_all add: ex_marker_def is_grad_marker_def)
  have p: "\<forall>e\<in>set ?post. \<not> is_grad_marker e"
    by (simp add: ex_op_def is_grad_marker_def)
  have s: "ex_slices_to_jaxpr ex_two_barriers [?pre, [?b], ?post] =
      [ex_two_barriers\<lparr>eqns := ?pre\<rparr>, ex_two_barriers\<lparr>eqns := [?b]\<rparr>,
       ex_two_barriers\<lparr>eqns := ?post\<rparr>]"
    by (simp add: ex_slices_to_jaxpr_def)
  have r: "split_compute_and_apply ex_slices_to_jaxpr ex_two_barriers =
           (Inr (ex_two_barriers\<lparr>eqns := ?pre\<rparr>, ex_two_barriers\<lparr>eqns := ?post\<rparr>, Some ?b), []) \<and>
         (\<forall>i<length (eqns ex_two_barriers).
            is_grad_marker (eqns ex_two_barriers ! i) \<and> i \<noteq> length ?pre \<longrightarrow>
            i < length ?pre \<and> ?pre ! i = eqns ex_two_barriers ! i)"
    using e ex_two_barriers_wf m(1) p s by (rule split_at_last_barrier)
  have a: "list_all marker_has_type (eqns ex_two_barriers)"
    using ex_two_barriers_wf by (simp add: list_all_iff)
  have b: "list_all (\<lambda>e. \<not> is_grad_marker e) ?post"
    using p by (simp add: list_all_iff)
  from e a m b r show ?thesis by (intro conjI) simp_all
qed

section \<open>Properties of the stage-to-mesh assignment\<close>

lemma real_half_less: "real i < real n / 2 \<longleftrightarrow> 2 * i < n"
proof -
  have "real i < real n / 2 \<longleftrightarrow> real (2 * i) < real n" by (simp add: field_simps)
  also have "\<dots> \<longleftrightarrow> 2 * i < n" by (rule of_nat_less_iff)
  finally show ?thesis .
qed

lemma fold_enumerate_upd:
  "fold (\<lambda>(i, _) m. m(i \<mapsto> f i)) (enumerate k xs) m0 =
     (\<lambda>i. if k \<le> i \<and> i < k + length xs then Some (f i) else m0 i)"
  by (induction xs arbitrary: k m0) (auto simp: fun_eq_iff)

lemma stage_to_mesh_of_apply:
  "stage_to_mesh_of jax_pipeline_stages i =
     (if i < length jax_pipeline_stages then
        Some (if 2 * i < length jax_pipeline_stages then i
              else length jax_pipeline_stages - i - 1)
      else None)"
  by (simp add: stage_to_mesh_of_def Let_def fold_enumerate_upd real_half_less)

text \<open>
  Claim C6. When the number of sliced pipeline stages is odd, \<open>three_d_parallel_callable\<close>
  fails with the assertion error of line 151 during construction: the rest of the
  construction is not reached and no callable is returned, whatever the rest would do
  (with or without apply-gradient stages).
\<close>

theorem odd_stage_count_fails:
  assumes "odd (length jax_pipeline_stages)"
  shows "three_d_parallel_callable (Inr jax_pipeline_stages) build_rest = Inl AssertionError"
  using assms by (simp add: three_d_parallel_callable_def Let_def odd_iff_mod_2_eq_one)

theorem odd_stage_count_fails_witness:
  "odd (length [''s0'', ''s1'', ''s2'']) \<and>
   three_d_parallel_callable (Inr [''s0'', ''s1'', ''s2''])
     (\<lambda>stages stage_to_mesh mesh_num. Inr mesh_num) = Inl AssertionError"
proof -
  have h: "odd (length [''s0'', ''s1'', ''s2''])" by simp
  from odd_stage_count_fails [OF h] h show ?thesis by blast
qed

text \<open>
  Claim C7. For an even number \<open>N\<close> of pipeline stages the construction passes the
  assertion and continues with \<open>N div 2\<close> meshes; the assignment maps stage \<open>i\<close> and
  stage \<open>N - 1 - i\<close> to the same mesh for every \<open>i < N\<close>, the mesh of stage \<open>i\<close> is
  \<open>i\<close> for \<open>i < N div 2\<close>, and every mesh index is below \<open>N div 2\<close>.
\<close>

theorem even_stage_count_mirrored:
  assumes "even (length jax_pipeline_stages)" and "i < length jax_pipeline_stages"
  shows "three_d_parallel_callable (Inr jax_pipeline_stages) build_rest =
           build_rest jax_pipeline_stages (stage_to_mesh_of jax_pipeline_stages)
             (length jax_pipeline_stages div 2) \<and>
         stage_to_mesh_of jax_pipeline_stages i =
           stage_to_mesh_of jax_pipeline_stages (length jax_pipeline_stages - 1 - i) \<and>
         stage_to_mesh_of jax_pipeline_stages i =
           Some (if i < length jax_pipeline_stages div 2 then i
                 else length jax_pipeline_stages - 1 - i) \<and>
         (\<exists>mesh_idx. stage_to_mesh_of jax_pipeline_stages i = Some mesh_idx \<and>
            mesh_idx < length jax_pipeline_stages div 2)"
proof -
  let ?n = "length jax_pipeline_stages"
  from assms(1) obtain k where k: "?n = 2 * k" by (auto elim: evenE)
  have a: "three_d_parallel_callable (Inr jax_pipeline_stages) build_rest =
           build_rest jax_pipeline_stages (stage_to_mesh_of jax_pipeline_stages) (?n div 2)"
    using assms(1) by (simp add: three_d_parallel_callable_def Let_def)
  have b: "stage_to_mesh_of jax_pipeline_stages i = stage_to_mesh_of jax_pipeline_stages (?n - 1 - i)"
    using assms(2) k by (auto simp: stage_to_mesh_of_apply)
  have c: "stage_to_mesh_of jax_pipeline_stages i = Some (if i < ?n div 2 then i else ?n - 1 - i)"
    using assms(2) k by (auto simp: stage_to_mesh_of_apply)
  have d: "(if i < ?n div 2 then i else ?n - 1 - i) < ?n div 2"
    using assms(2) k by auto
  from c d have e: "\<exists>mesh_idx. stage_to_mesh_of jax_pipeline_stages i = Some mesh_idx \<and>
            mesh_idx < ?n div 2" by blast
  from a b c e show ?thesis by (intro conjI)
qed

theorem even_stage_count_mirrored_witness:
  "even (length [''s0'', ''s1'', ''s2'', ''s3'']) \<and> (1::nat) < length [''s0'', ''s1'', ''s2'', ''s3''] \<and>
   three_d_parallel_callable (Inr [''s0'', ''s1'', ''s2'', ''s3''])
     (\<lambda>stages stage_to_mesh mesh_num. Inr (map stage_to_mesh [0, 1, 2, 3], mesh_num)) =
     Inr ([Some 0, Some 1, Some 1, Some 0], 2) \<and>
   stage_to_mesh_of [''s0'', ''s1'', ''s2'', ''s3''] 1 = stage_to_mesh_of [''s0'', ''s1'', ''s2'', ''s3''] 2 \<and>
   stage_to_mesh_of [''s0'', ''s1'', ''s2'', ''s3''] 1 = Some 1"
proof -
  let ?st = "[''s0'', ''s1'', ''s2'', ''s3'']"
  have h: "even (length ?st)" "(1::nat) < length ?st" by simp_all
  from even_stage_count_mirrored [OF h,
      of "\<lambda>stages stage_to_mesh mesh_num. Inr (map stage_to_mesh [0, 1, 2, 3], mesh_num)"]
  show ?thesis using h by (simp add: stage_to_mesh_of_apply)
qed

end
